theory Spec2Isabelle
  imports Main "HOL-Library.Sublist" "HOL-Library.Char_ord"
begin

section \<open>Strings and characters\<close>

text \<open>
  The parser of \<^verbatim>\<open>src/email_parser.py\<close> works on Python \<^verbatim>\<open>str\<close> values. They are
  modelled as \<^typ>\<open>string\<close>: a list of 8-bit characters, each read as the code point
  of the same number (U+0000 to U+00FF). The character classes below are Python's
  classes on that range.
\<close>

definition in_range :: "char \<Rightarrow> char \<Rightarrow> char \<Rightarrow> bool" where
  \<comment> \<open>a range \<^verbatim>\<open>lo-hi\<close> of code points\<close>
  "in_range lo hi c = (lo \<le> c \<and> c \<le> hi)"

definition py_isspace :: "char \<Rightarrow> bool" where
  \<comment> \<open>\<^verbatim>\<open>str.isspace\<close> and the class \<^verbatim>\<open>\s\<close> of a str pattern: TAB, LF, VT, FF, CR,
      the separators U+001C..U+001F, SPACE, NEL (U+0085) and NBSP (U+00A0)\<close>
  "py_isspace c =
     (in_range (CHR 0x09) (CHR 0x0D) c \<or> in_range (CHR 0x1C) (CHR 0x20) c \<or>
      c = CHR 0x85 \<or> c = CHR 0xA0)"

definition py_isupper :: "char \<Rightarrow> bool" where
  \<comment> \<open>the upper-case letters of the range: A..Z and U+00C0..U+00DE without U+00D7\<close>
  "py_isupper c =
     (in_range CHR ''A'' CHR ''Z'' c \<or> in_range (CHR 0xC0) (CHR 0xD6) c \<or>
      in_range (CHR 0xD8) (CHR 0xDE) c)"

definition py_islower_paired :: "char \<Rightarrow> bool" where
  \<comment> \<open>the lower-case letters whose upper-case form lies in the range too: a..z and
      U+00E0..U+00FE without U+00F7\<close>
  "py_islower_paired c =
     (in_range CHR ''a'' CHR ''z'' c \<or> in_range (CHR 0xE0) (CHR 0xF6) c \<or>
      in_range (CHR 0xF8) (CHR 0xFE) c)"

fun set_bit5 :: "bool \<Rightarrow> char \<Rightarrow> char" where
  \<comment> \<open>upper and lower case of a letter differ by 32, the bit of weight \<open>2 ^ 5\<close>\<close>
  "set_bit5 b (Char b0 b1 b2 b3 b4 b5 b6 b7) = Char b0 b1 b2 b3 b4 b b6 b7"

definition py_lower_chr :: "char \<Rightarrow> char" where
  "py_lower_chr c = (if py_isupper c then set_bit5 True c else c)"

definition py_upper_chr :: "char \<Rightarrow> char" where
  "py_upper_chr c = (if py_islower_paired c then set_bit5 False c else c)"

definition py_lower :: "string \<Rightarrow> string" where
  \<comment> \<open>\<^verbatim>\<open>str.lower()\<close>\<close>
  "py_lower s = map py_lower_chr s"

definition py_strip :: "string \<Rightarrow> string" where
  \<comment> \<open>\<^verbatim>\<open>str.strip()\<close>: white space removed at both ends\<close>
  "py_strip s = rev (dropWhile py_isspace (rev (dropWhile py_isspace s)))"

fun py_split :: "char \<Rightarrow> string \<Rightarrow> string list" where
  \<comment> \<open>\<^verbatim>\<open>str.split(sep)\<close> for a separator of one character: the pieces between the
      separators, empty pieces kept, never an empty list\<close>
  "py_split sep [] = [[]]"
| "py_split sep (c # cs) =
     (if c = sep then [] # py_split sep cs
      else (case py_split sep cs of
              [] \<Rightarrow> [[c]]
            | p # ps \<Rightarrow> (c # p) # ps))"

fun py_join :: "string \<Rightarrow> string list \<Rightarrow> string" where
  \<comment> \<open>\<^verbatim>\<open>sep.join(parts)\<close>\<close>
  "py_join sep [] = []"
| "py_join sep [p] = p"
| "py_join sep (p # q # ps) = p @ sep @ py_join sep (q # ps)"

fun py_contains :: "string \<Rightarrow> string \<Rightarrow> bool" where
  \<comment> \<open>\<^verbatim>\<open>sub in s\<close>\<close>
  "py_contains sub [] = (sub = [])"
| "py_contains sub (c # cs) = (prefix sub (c # cs) \<or> py_contains sub cs)"

fun py_replace :: "string \<Rightarrow> string \<Rightarrow> string \<Rightarrow> string" where
  \<comment> \<open>\<^verbatim>\<open>s.replace(old, new)\<close> for a non-empty \<open>old\<close>: the occurrences are replaced from
      left to right, none overlapping the one before\<close>
  "py_replace old new [] = []"
| "py_replace old new (c # cs) =
     (if old \<noteq> [] \<and> prefix old (c # cs)
      then new @ py_replace old new (drop (length old - 1) cs)
      else c # py_replace old new cs)"

section \<open>The regular expressions of the parser\<close>

text \<open>
  The fragment of Python's \<^verbatim>\<open>re\<close> syntax the source uses: literal characters,
  character classes, greedy repetition of a class (\<^verbatim>\<open>*\<close>, \<^verbatim>\<open>+\<close>, \<^verbatim>\<open>{3,}\<close>), an optional
  item (\<^verbatim>\<open>?\<close>), sequence, alternation and one capturing group. Every repeated item of
  the source is a single character class.
\<close>

datatype rx =
    Eps
  | Lit char
  | Cls "char \<Rightarrow> bool"
  | Rep nat "char \<Rightarrow> bool"
  | Opt rx
  | Seq rx rx
  | Alt rx rx
  | Grp rx

definition lit_ok :: "bool \<Rightarrow> char \<Rightarrow> char \<Rightarrow> bool" where
  \<comment> \<open>does the text character \<open>d\<close> match the literal \<open>c\<close>; \<open>ic\<close> is \<^verbatim>\<open>re.IGNORECASE\<close>\<close>
  "lit_ok ic c d = (if ic then py_lower_chr d = py_lower_chr c else d = c)"

definition cls_ok :: "bool \<Rightarrow> (char \<Rightarrow> bool) \<Rightarrow> char \<Rightarrow> bool" where
  \<comment> \<open>under \<^verbatim>\<open>re.IGNORECASE\<close> a class holds the other case of its members too\<close>
  "cls_ok ic p d = (if ic then p d \<or> p (py_lower_chr d) \<or> p (py_upper_chr d) else p d)"

fun rep_run :: "(char \<Rightarrow> bool) \<Rightarrow> nat \<Rightarrow> string \<Rightarrow> string list" where
  \<comment> \<open>at least \<open>n\<close> characters of the class: the inputs left over, longest match first\<close>
  "rep_run p n [] = (if n = 0 then [[]] else [])"
| "rep_run p n (d # t) =
     (if p d then rep_run p (n - 1) t else []) @ (if n = 0 then [d # t] else [])"

fun rx_run :: "bool \<Rightarrow> rx \<Rightarrow> string \<Rightarrow> (string option \<times> string) list" where
  \<comment> \<open>every way the pattern matches a prefix of the input, in the order a backtracking
      matcher tries them: the text of group 1 (when the group took part) and the input
      left over\<close>
  "rx_run ic Eps s = [(None, s)]"
| "rx_run ic (Lit c) s =
     (case s of [] \<Rightarrow> [] | d # t \<Rightarrow> if lit_ok ic c d then [(None, t)] else [])"
| "rx_run ic (Cls p) s =
     (case s of [] \<Rightarrow> [] | d # t \<Rightarrow> if cls_ok ic p d then [(None, t)] else [])"
| "rx_run ic (Rep n p) s = map (Pair None) (rep_run (cls_ok ic p) n s)"
| "rx_run ic (Opt r) s = rx_run ic r s @ [(None, s)]"
| "rx_run ic (Seq a b) s =
     concat (map (\<lambda>(g, t). map (\<lambda>(h, u). (if h = None then g else h, u)) (rx_run ic b t))
                 (rx_run ic a s))"
| "rx_run ic (Alt a b) s = rx_run ic a s @ rx_run ic b s"
| "rx_run ic (Grp r) s =
     map (\<lambda>(g, t). (Some (take (length s - length t) s), t)) (rx_run ic r s)"

record re_match =
  group0 :: string
  group1 :: "string option"
  rest :: string

definition re_match_at :: "bool \<Rightarrow> rx \<Rightarrow> string \<Rightarrow> re_match option" where
  \<comment> \<open>the match that starts at the head of \<open>s\<close>: the first way found\<close>
  "re_match_at ic r s =
     (case rx_run ic r s of
        [] \<Rightarrow> None
      | (g, t) # _ \<Rightarrow> Some \<lparr>group0 = take (length s - length t) s, group1 = g, rest = t\<rparr>)"

fun re_search :: "bool \<Rightarrow> rx \<Rightarrow> string \<Rightarrow> re_match option" where
  \<comment> \<open>\<^verbatim>\<open>re.search\<close>: the match at the leftmost position that has one\<close>
  "re_search ic r [] = re_match_at ic r []"
| "re_search ic r (c # cs) =
     (case re_match_at ic r (c # cs) of
        Some m \<Rightarrow> Some m
      | None \<Rightarrow> re_search ic r cs)"

fun re_scan :: "bool \<Rightarrow> rx \<Rightarrow> nat \<Rightarrow> string \<Rightarrow> (string + char) list" where
  \<comment> \<open>the scan shared by \<^verbatim>\<open>re.findall\<close> and \<^verbatim>\<open>re.sub\<close>: from left to right, the matches
      (\<open>Inl\<close>) and the characters between them (\<open>Inr\<close>); after a match the scan goes on
      behind it (\<open>k\<close> counts the characters of the last match still to be passed).
      None of the patterns of the source matches the empty string.\<close>
  "re_scan ic r k [] = []"
| "re_scan ic r k (c # cs) =
     (if 0 < k then re_scan ic r (k - 1) cs
      else (case re_match_at ic r (c # cs) of
              None \<Rightarrow> Inr c # re_scan ic r 0 cs
            | Some m \<Rightarrow>
                if group0 m = [] then Inr c # re_scan ic r 0 cs
                else Inl (group0 m) # re_scan ic r (length (group0 m) - 1) cs))"

definition re_findall :: "bool \<Rightarrow> rx \<Rightarrow> string \<Rightarrow> string list" where
  \<comment> \<open>\<^verbatim>\<open>re.findall\<close> for a pattern without a group: the matched texts\<close>
  "re_findall ic r s = concat (map (case_sum (\<lambda>m. [m]) (\<lambda>c. [])) (re_scan ic r 0 s))"

definition re_sub :: "bool \<Rightarrow> rx \<Rightarrow> string \<Rightarrow> string \<Rightarrow> string" where
  \<comment> \<open>\<^verbatim>\<open>re.sub(pattern, repl, s)\<close>: every match replaced by \<open>repl\<close>\<close>
  "re_sub ic r repl s = concat (map (case_sum (\<lambda>m. repl) (\<lambda>c. [c])) (re_scan ic r 0 s))"

definition re_sub_bol :: "bool \<Rightarrow> rx \<Rightarrow> string \<Rightarrow> string \<Rightarrow> string" where
  \<comment> \<open>\<^verbatim>\<open>re.sub\<close> for a pattern \<^verbatim>\<open>^r\<close>: without \<^verbatim>\<open>re.MULTILINE\<close> the anchor holds at
      the start of the string only, so at most the match there is replaced\<close>
  "re_sub_bol ic r repl s =
     (case re_match_at ic r s of
        None \<Rightarrow> s
      | Some m \<Rightarrow> repl @ rest m)"

section \<open>The parser of \<^verbatim>\<open>src/email_parser.py\<close>\<close>

subsection \<open>Status detection\<close>

definition rx_seq :: "rx list \<Rightarrow> rx" where
  \<comment> \<open>the items of a pattern, one after the other\<close>
  "rx_seq rs = foldr Seq rs Eps"

definition rx_str :: "string \<Rightarrow> rx" where
  \<comment> \<open>a run of literal characters\<close>
  "rx_str s = rx_seq (map Lit s)"

definition ws0 :: rx where
  \<comment> \<open>\<^verbatim>\<open>\s*\<close>\<close>
  "ws0 = Rep 0 py_isspace"

definition ws1 :: rx where
  \<comment> \<open>\<^verbatim>\<open>\s+\<close>\<close>
  "ws1 = Rep 1 py_isspace"

definition STATUS_PATTERNS :: "(string \<times> rx list) list" where
  \<comment> \<open>the dict of the source, in its insertion order (the order Python iterates it in)\<close>
  "STATUS_PATTERNS =
    [(''completed'',
        [rx_str ''completed'',
         rx_str ''finished'',
         rx_str ''done'',
         rx_str ''merged'',
         rx_seq [rx_str ''task'', ws1, rx_str ''complete''],
         rx_str ''successfully'']),
     (''failed'',
        [rx_str ''failed'',
         rx_str ''error'',
         rx_str ''unable'',
         rx_seq [rx_str ''could'', ws0, Lit CHR ''n'',
                 Cls (\<lambda>c. c = CHR ''o'' \<or> c = CHR 0x27), Lit CHR ''t''],
         rx_str ''unsuccessful'']),
     (''needs_review'',
        [rx_str ''review'',
         rx_str ''waiting'',
         rx_str ''pending'',
         rx_seq [rx_str ''ready'', ws1, rx_str ''for'', ws1, rx_str ''review''],
         rx_seq [rx_str ''pull'', ws1, rx_str ''request''],
         rx_seq [rx_str ''change'', Opt (Lit CHR ''s''), ws1, rx_str ''ready'']]),
     (''in_progress'',
        [rx_str ''started'',
         rx_str ''working'',
         rx_seq [rx_str ''in'', ws1, rx_str ''progress''],
         rx_str ''processing'',
         rx_str ''running'']),
     (''cancelled'',
        [rx_seq [rx_str ''cancel'', Opt (Lit CHR ''l''), rx_str ''ed''],
         rx_str ''stopped'',
         rx_str ''aborted''])]"

definition status_score :: "rx list \<Rightarrow> string \<Rightarrow> nat" where
  \<comment> \<open>the inner loop of \<^verbatim>\<open>_detect_status\<close>: the matches of every pattern, added up\<close>
  "status_score patterns text =
     foldl (\<lambda>score pattern. score + length (re_findall True pattern text)) 0 patterns"

definition status_scores :: "string \<Rightarrow> (string \<times> nat) list" where
  \<comment> \<open>the dict \<^verbatim>\<open>scores\<close>: the categories of positive score, in insertion order\<close>
  "status_scores text =
     filter (\<lambda>(status, score). 0 < score)
       (map (\<lambda>(status, patterns). (status, status_score patterns text)) STATUS_PATTERNS)"

fun max_by_value :: "string \<times> nat \<Rightarrow> (string \<times> nat) list \<Rightarrow> string" where
  \<comment> \<open>\<^verbatim>\<open>max(scores, key=scores.get)\<close>: the running maximum changes only for a strictly
      greater value\<close>
  "max_by_value best [] = fst best"
| "max_by_value best (kv # kvs) =
     (if snd best < snd kv then max_by_value kv kvs else max_by_value best kvs)"

definition detect_status :: "string \<Rightarrow> string" where
  "detect_status text =
     (case status_scores text of
        [] \<Rightarrow> ''unknown''
      | kv # kvs \<Rightarrow> max_by_value kv kvs)"

subsection \<open>Title\<close>

definition dash_or_colon :: "char \<Rightarrow> bool" where
  \<comment> \<open>the class of a hyphen, an en dash, an em dash and a colon; the two dashes
      (U+2013, U+2014) lie outside the range of the characters modelled\<close>
  "dash_or_colon c = (c = CHR ''-'' \<or> c = CHR '':'')"

definition clean_subject :: "string \<Rightarrow> string" where
  "clean_subject subject =
     (let s1 = re_sub_bol True (rx_seq [ws0, rx_str ''[Jules]'', ws0]) [] subject;
          s2 = re_sub_bol True (rx_seq [ws0, rx_str ''Jules:'', ws0]) [] s1;
          s3 = re_sub_bol True
                 (rx_seq [ws0, rx_str ''Google Jules'', ws0, Cls dash_or_colon, ws0]) [] s2
      in if py_strip s3 = [] then ''Jules Notification'' else py_strip s3)"

subsection \<open>Repository\<close>

definition repo_char :: "char \<Rightarrow> bool" where
  \<comment> \<open>the class \<^verbatim>\<open>[a-zA-Z0-9_.-]\<close>\<close>
  "repo_char c =
     (in_range CHR ''a'' CHR ''z'' c \<or> in_range CHR ''A'' CHR ''Z'' c \<or>
      in_range CHR ''0'' CHR ''9'' c \<or> c = CHR ''_'' \<or> c = CHR ''.'' \<or> c = CHR ''-'')"

definition repo_token :: rx where
  \<comment> \<open>the group \<^verbatim>\<open>([a-zA-Z0-9_.-]+/[a-zA-Z0-9_.-]+)\<close>\<close>
  "repo_token = Grp (rx_seq [Rep 1 repo_char, Lit CHR ''/'', Rep 1 repo_char])"

definition repo_label_rx :: rx where
  \<comment> \<open>\<^verbatim>\<open>(?:repository|repo)[:\s]+([a-zA-Z0-9_.-]+/[a-zA-Z0-9_.-]+)\<close>\<close>
  "repo_label_rx =
     rx_seq [Alt (rx_str ''repository'') (rx_str ''repo''),
             Rep 1 (\<lambda>c. c = CHR '':'' \<or> py_isspace c), repo_token]"

definition repo_github_rx :: rx where
  \<comment> \<open>\<^verbatim>\<open>github\.com/([a-zA-Z0-9_.-]+/[a-zA-Z0-9_.-]+)\<close>\<close>
  "repo_github_rx = rx_seq [rx_str ''github.com/'', repo_token]"

definition repo_suffix_rx :: rx where
  \<comment> \<open>\<^verbatim>\<open>([a-zA-Z0-9_.-]+/[a-zA-Z0-9_.-]+)(?:\s+repository)\<close>\<close>
  "repo_suffix_rx = rx_seq [repo_token, ws1, rx_str ''repository'']"

definition repo_patterns :: "rx list" where
  "repo_patterns = [repo_label_rx, repo_github_rx, repo_suffix_rx]"

definition group1_text :: "re_match \<Rightarrow> string" where
  \<comment> \<open>\<^verbatim>\<open>match.group(1)\<close>; the group takes part in every match of the patterns here\<close>
  "group1_text m = (case group1 m of None \<Rightarrow> [] | Some g \<Rightarrow> g)"

fun first_repo_match :: "rx list \<Rightarrow> string \<Rightarrow> string option" where
  \<comment> \<open>the loop over \<^verbatim>\<open>repo_patterns\<close>: the first pattern found in the text decides\<close>
  "first_repo_match [] text = None"
| "first_repo_match (pattern # patterns) text =
     (case re_search True pattern text of
        Some m \<Rightarrow> Some (group1_text m)
      | None \<Rightarrow> first_repo_match patterns text)"

definition extract_repo :: "string \<Rightarrow> string \<Rightarrow> string" where
  "extract_repo text subject =
     (case first_repo_match repo_patterns text of
        Some r \<Rightarrow> r
      | None \<Rightarrow>
          (case re_search False repo_token subject of
             Some m \<Rightarrow>
               (let candidate = group1_text m
                in if py_contains ''/'' candidate \<and> \<not> prefix ''http'' candidate
                   then candidate else [])
           | None \<Rightarrow> []))"

subsection \<open>Summary\<close>

definition py_isword :: "char \<Rightarrow> bool" where
  \<comment> \<open>the class \<^verbatim>\<open>\w\<close> of a str pattern: the alphanumeric characters and the underscore\<close>
  "py_isword c =
     (in_range CHR ''a'' CHR ''z'' c \<or> in_range CHR ''A'' CHR ''Z'' c \<or>
      in_range CHR ''0'' CHR ''9'' c \<or> c = CHR ''_'' \<or>
      c = CHR 0xAA \<or> c = CHR 0xB2 \<or> c = CHR 0xB3 \<or> c = CHR 0xB5 \<or>
      c = CHR 0xB9 \<or> c = CHR 0xBA \<or> in_range (CHR 0xBC) (CHR 0xBE) c \<or>
      in_range (CHR 0xC0) (CHR 0xD6) c \<or> in_range (CHR 0xD8) (CHR 0xF6) c \<or>
      in_range (CHR 0xF8) (CHR 0xFF) c)"

definition rx_entity :: rx where
  \<comment> \<open>\<^verbatim>\<open>&\w+;\<close>\<close>
  "rx_entity = rx_seq [Lit CHR ''&'', Rep 1 py_isword, Lit CHR '';'']"

definition build_summary :: "string \<Rightarrow> string \<Rightarrow> string" where
  "build_summary snippet body_text =
     (if snippet \<noteq> [] then
        (let summary = py_replace ''&quot;'' [CHR 0x22] (py_replace ''&#39;'' [CHR 0x27] snippet);
             summary = re_sub False rx_entity [] summary
         in take 300 summary)
      else if body_text \<noteq> [] then
        (let lines = filter (\<lambda>line. line \<noteq> [])
                       (map py_strip (py_split CHR 0x0A body_text));
             summary = py_join '' '' (take 3 lines)
         in take 300 summary)
      else ''New notification from Jules'')"

subsection \<open>The markup library\<close>

text \<open>
  \<^verbatim>\<open>BeautifulSoup\<close> is a library outside the repository. The two things the parser asks
  of it are parameters of the model, each of them free to raise:
  \<^item> \<open>get_text\<close>: the document parsed with \<^verbatim>\<open>html.parser\<close>, its \<^verbatim>\<open>script\<close>, \<^verbatim>\<open>style\<close> and
    \<^verbatim>\<open>head\<close> elements removed, then \<^verbatim>\<open>get_text(separator="\n", strip=True)\<close>;
  \<^item> \<open>find_hrefs\<close>: the \<^verbatim>\<open>href\<close> values of \<^verbatim>\<open>find_all("a", href=True)\<close>, in document order.
\<close>

datatype py_exception = PyException

record soup =
  get_text :: "string \<Rightarrow> py_exception + string"
  find_hrefs :: "string \<Rightarrow> py_exception + string list"

subsection \<open>Body text and link\<close>

definition newline :: char where
  "newline = CHR 0x0A"

definition html_to_text :: "soup \<Rightarrow> string \<Rightarrow> string" where
  \<comment> \<open>\<^verbatim>\<open>try: ... except Exception: return html\<close>\<close>
  "html_to_text bs html =
     (case get_text bs html of
        Inr text \<Rightarrow>
          py_strip (re_sub False (Rep 3 (\<lambda>c. c = newline)) [newline, newline] text)
      | Inl e \<Rightarrow> html)"

definition url_char :: "char \<Rightarrow> bool" where
  \<comment> \<open>the class \<^verbatim>\<open>[^\s<>"')\]]\<close>\<close>
  "url_char c =
     (\<not> (py_isspace c \<or> c = CHR ''<'' \<or> c = CHR ''>'' \<or> c = CHR 0x22 \<or>
         c = CHR 0x27 \<or> c = CHR '')'' \<or> c = CHR '']''))"

definition url_pattern :: rx where
  \<comment> \<open>\<^verbatim>\<open>https?://[^\s<>"')\]]+\<close>\<close>
  "url_pattern = rx_seq [rx_str ''http'', Opt (Lit CHR ''s''), rx_str ''://'', Rep 1 url_char]"

definition jules_or_github :: "string \<Rightarrow> bool" where
  \<comment> \<open>the test of both loops of \<^verbatim>\<open>_extract_jules_link\<close>\<close>
  "jules_or_github url =
     (py_contains ''jules'' (py_lower url) \<or> py_contains ''github.com'' (py_lower url))"

definition first_link :: "string list \<Rightarrow> string option" where
  \<comment> \<open>a loop that returns the first candidate passing the test\<close>
  "first_link urls = find jules_or_github urls"

definition link_in_text :: "string \<Rightarrow> string" where
  \<comment> \<open>the fall-back of \<^verbatim>\<open>_extract_jules_link\<close>: the URL pattern, case-sensitive, over the
      plain text\<close>
  "link_in_text text =
     (case first_link (re_findall False url_pattern text) of
        Some url \<Rightarrow> url
      | None \<Rightarrow> [])"

definition extract_jules_link :: "soup \<Rightarrow> string \<Rightarrow> string \<Rightarrow> string" where
  "extract_jules_link bs html text =
     (if html \<noteq> [] then
        (case find_hrefs bs html of
           Inr hrefs \<Rightarrow>
             (case first_link hrefs of
                Some href \<Rightarrow> href
              | None \<Rightarrow> link_in_text text)
         | Inl e \<Rightarrow> link_in_text text)
      else link_in_text text)"

subsection \<open>The record of a notification\<close>

record parsed =
  status :: string
  title :: string
  repo :: string
  summary :: string
  link :: string
  raw_subject :: string

definition dict_get :: "(string \<rightharpoonup> string) \<Rightarrow> string \<Rightarrow> string \<Rightarrow> string" where
  \<comment> \<open>\<^verbatim>\<open>d.get(key, default)\<close>\<close>
  "dict_get d key dflt = (case d key of None \<Rightarrow> dflt | Some v \<Rightarrow> v)"

definition body_plain_of :: "soup \<Rightarrow> string \<Rightarrow> string \<Rightarrow> string" where
  \<comment> \<open>the variable \<^verbatim>\<open>body_plain\<close> of \<^verbatim>\<open>parse_jules_email\<close>\<close>
  "body_plain_of bs body_html body_text =
     (if body_html \<noteq> [] then html_to_text bs body_html else body_text)"

definition parse_jules_email :: "soup \<Rightarrow> (string \<rightharpoonup> string) \<Rightarrow> parsed" where
  "parse_jules_email bs email_data =
     (let subject = dict_get email_data ''subject'' [];
          snippet = dict_get email_data ''snippet'' [];
          body_html = dict_get email_data ''body_html'' [];
          body_text = dict_get email_data ''body_text'' [];
          body_plain = body_plain_of bs body_html body_text;
          full_text = py_lower (subject @ '' '' @ snippet @ '' '' @ body_plain)
      in \<lparr>status = detect_status full_text,
          title = clean_subject subject,
          repo = extract_repo full_text subject,
          summary = build_summary snippet body_plain,
          link = extract_jules_link bs body_html body_plain,
          raw_subject = subject\<rparr>)"

definition raw_email :: "string \<Rightarrow> string \<Rightarrow> string \<Rightarrow> string \<Rightarrow> (string \<rightharpoonup> string)" where
  \<comment> \<open>the dict of an email with the four keys the parser reads\<close>
  "raw_email subject snippet body_html body_text =
     [''subject'' \<mapsto> subject, ''snippet'' \<mapsto> snippet,
      ''body_html'' \<mapsto> body_html, ''body_text'' \<mapsto> body_text]"

section \<open>Notions used in the statements\<close>

definition failing_soup :: soup where
  \<comment> \<open>a markup library whose every call raises\<close>
  "failing_soup = \<lparr>get_text = (\<lambda>html. Inl PyException), find_hrefs = (\<lambda>html. Inl PyException)\<rparr>"

definition categories :: "string list" where
  \<comment> \<open>the keys of \<^verbatim>\<open>STATUS_PATTERNS\<close> in their declared order\<close>
  "categories = map fst STATUS_PATTERNS"

definition category_score :: "string \<Rightarrow> string \<Rightarrow> nat" where
  \<comment> \<open>the score \<^verbatim>\<open>_detect_status\<close> computes for a category on a text\<close>
  "category_score c text =
     (case map_of STATUS_PATTERNS c of
        None \<Rightarrow> 0
      | Some patterns \<Rightarrow> status_score patterns text)"

fun rx_matches :: "bool \<Rightarrow> rx \<Rightarrow> string \<Rightarrow> bool" where
  \<comment> \<open>the meaning of a pattern: the words it matches from their first to their last
      character\<close>
  "rx_matches ic Eps w = (w = [])"
| "rx_matches ic (Lit c) w = (\<exists>d. w = [d] \<and> lit_ok ic c d)"
| "rx_matches ic (Cls p) w = (\<exists>d. w = [d] \<and> cls_ok ic p d)"
| "rx_matches ic (Rep n p) w = (n \<le> length w \<and> list_all (cls_ok ic p) w)"
| "rx_matches ic (Opt r) w = (w = [] \<or> rx_matches ic r w)"
| "rx_matches ic (Seq a b) w = (\<exists>u v. w = u @ v \<and> rx_matches ic a u \<and> rx_matches ic b v)"
| "rx_matches ic (Alt a b) w = (rx_matches ic a w \<or> rx_matches ic b w)"
| "rx_matches ic (Grp r) w = rx_matches ic r w"

definition url_shape :: "string \<Rightarrow> bool" where
  \<comment> \<open>a scheme \<open>http://\<close> or \<open>https://\<close> and then one character or more, none of them
      white space or one of \<^verbatim>\<open>< > " ' ) ]\<close>\<close>
  "url_shape u =
     (let n = (if prefix ''https://'' u then 8 else 7)
      in (prefix ''http://'' u \<or> prefix ''https://'' u) \<and>
         drop n u \<noteq> [] \<and> list_all url_char (drop n u))"

definition no_anchor_matched :: "soup \<Rightarrow> string \<Rightarrow> bool" where
  \<comment> \<open>the first loop of \<^verbatim>\<open>_extract_jules_link\<close> returns nothing: no anchor passes the
      test, or the library raised\<close>
  "no_anchor_matched bs html =
     (case find_hrefs bs html of
        Inr hrefs \<Rightarrow> first_link hrefs = None
      | Inl e \<Rightarrow> True)"

definition rests :: "bool \<Rightarrow> rx \<Rightarrow> string \<Rightarrow> string list" where
  \<comment> \<open>the inputs left over by the ways a pattern matches, in their order\<close>
  "rests ic r s = map snd (rx_run ic r s)"


definition ci_prefix :: "string \<Rightarrow> string \<Rightarrow> bool" where
  \<comment> \<open>\<open>s\<close> starts with \<open>w\<close>, the case of the letters apart\<close>
  "ci_prefix w s = prefix (py_lower w) (py_lower s)"




definition is_label :: "string \<Rightarrow> bool" where
  \<comment> \<open>the word \<open>repository\<close> or \<open>repo\<close>, in any case\<close>
  "is_label lab = (py_lower lab = ''repository'' \<or> py_lower lab = ''repo'')"

definition is_label_sep :: "string \<Rightarrow> bool" where
  \<comment> \<open>what stands between label and token: colons and white space, one at least\<close>
  "is_label_sep sep = (sep \<noteq> [] \<and> list_all (\<lambda>c. c = CHR '':'' \<or> py_isspace c) sep)"

definition is_repo_token :: "string \<Rightarrow> bool" where
  \<comment> \<open>an \<open>owner/name\<close> token\<close>
  "is_repo_token tok =
     (\<exists>owner name. tok = owner @ ''/'' @ name \<and> owner \<noteq> [] \<and> name \<noteq> [] \<and>
        list_all repo_char owner \<and> list_all repo_char name)"

definition labelled_token :: "string \<Rightarrow> string \<Rightarrow> bool" where
  \<comment> \<open>somewhere in the text the token follows a label and a separator\<close>
  "labelled_token text tok =
     (\<exists>pre lab sep post. text = pre @ lab @ sep @ tok @ post \<and>
        is_label lab \<and> is_label_sep sep \<and> is_repo_token tok)"

section \<open>The fields of the result\<close>

text \<open>
  Each field of the record \<^verbatim>\<open>parse_jules_email\<close> returns, for an email of the four keys.
\<close>

lemma raw_email_get:
  "dict_get (raw_email subject snippet body_html body_text) ''subject'' [] = subject"
  "dict_get (raw_email subject snippet body_html body_text) ''snippet'' [] = snippet"
  "dict_get (raw_email subject snippet body_html body_text) ''body_html'' [] = body_html"
  "dict_get (raw_email subject snippet body_html body_text) ''body_text'' [] = body_text"
  by (simp_all add: dict_get_def raw_email_def)

lemma parse_status:
  "status (parse_jules_email bs (raw_email subject snippet body_html body_text)) =
     detect_status (py_lower (subject @ '' '' @ snippet @ '' '' @
       body_plain_of bs body_html body_text))"
  by (simp add: parse_jules_email_def raw_email_get Let_def)

lemma parse_title:
  "title (parse_jules_email bs (raw_email subject snippet body_html body_text)) =
     clean_subject subject"
  by (simp add: parse_jules_email_def raw_email_get Let_def)

lemma parse_repo:
  "repo (parse_jules_email bs (raw_email subject snippet body_html body_text)) =
     extract_repo (py_lower (subject @ '' '' @ snippet @ '' '' @
       body_plain_of bs body_html body_text)) subject"
  by (simp add: parse_jules_email_def raw_email_get Let_def)

lemma parse_summary:
  "summary (parse_jules_email bs (raw_email subject snippet body_html body_text)) =
     build_summary snippet (body_plain_of bs body_html body_text)"
  by (simp add: parse_jules_email_def raw_email_get Let_def)

lemma parse_link:
  "link (parse_jules_email bs (raw_email subject snippet body_html body_text)) =
     extract_jules_link bs body_html (body_plain_of bs body_html body_text)"
  by (simp add: parse_jules_email_def raw_email_get Let_def)

lemma parse_raw_subject:
  "raw_subject (parse_jules_email bs (raw_email subject snippet body_html body_text)) = subject"
  by (simp add: parse_jules_email_def raw_email_get Let_def)

lemma body_plain_of_no_html [simp]:
  "body_plain_of bs [] body_text = body_text"
  by (simp add: body_plain_of_def)

section \<open>The matcher is sound for the meaning of a pattern\<close>

lemma rep_run_sound:
  "t \<in> set (rep_run p n s) \<Longrightarrow> \<exists>w. s = w @ t \<and> n \<le> length w \<and> list_all p w"
proof (induction s arbitrary: n)
  case Nil
  then show ?case by (simp split: if_splits)
next
  case (Cons d s)
  from Cons.prems consider "p d" "t \<in> set (rep_run p (n - 1) s)" | "n = 0" "t = d # s"
    by (auto split: if_splits)
  then show ?case
  proof cases
    case 1
    from Cons.IH [OF 1(2)] obtain w where "s = w @ t" "n - 1 \<le> length w" "list_all p w"
      by blast
    with 1(1) have "d # s = (d # w) @ t \<and> n \<le> length (d # w) \<and> list_all p (d # w)"
      by simp
    then show ?thesis by blast
  next
    case 2
    then have "d # s = [] @ t \<and> n \<le> length ([]::string) \<and> list_all p []" by simp
    then show ?thesis by blast
  qed
qed

lemma rx_run_sound:
  "(g, t) \<in> set (rx_run ic r s) \<Longrightarrow> \<exists>w. s = w @ t \<and> rx_matches ic r w"
proof (induction r arbitrary: g t s)
  case Eps
  then show ?case by simp
next
  case (Lit c)
  then show ?case by (auto split: list.splits if_splits)
next
  case (Cls p)
  then show ?case by (auto split: list.splits if_splits)
next
  case (Rep n p)
  then have "t \<in> set (rep_run (cls_ok ic p) n s)" by auto
  from rep_run_sound [OF this] show ?case by auto
next
  case (Opt r)
  then show ?case by fastforce
next
  case (Seq a b)
  from Seq.prems obtain g1 t1 h where a: "(g1, t1) \<in> set (rx_run ic a s)"
    and b: "(h, t) \<in> set (rx_run ic b t1)"
    by auto
  from Seq.IH(1) [OF a] obtain u where u: "s = u @ t1" "rx_matches ic a u" by blast
  from Seq.IH(2) [OF b] obtain v where v: "t1 = v @ t" "rx_matches ic b v" by blast
  from u v have "s = (u @ v) @ t \<and> rx_matches ic (Seq a b) (u @ v)" by auto
  then show ?case by blast
next
  case (Alt a b)
  then show ?case by fastforce
next
  case (Grp r)
  then show ?case by fastforce
qed

lemma re_match_at_sound:
  assumes "re_match_at ic r s = Some m"
  shows "s = group0 m @ rest m \<and> rx_matches ic r (group0 m)"
proof -
  from assms obtain g t ps where run: "rx_run ic r s = (g, t) # ps"
    and m: "m = \<lparr>group0 = take (length s - length t) s, group1 = g, rest = t\<rparr>"
    by (auto simp add: re_match_at_def split: list.splits)
  from run have "(g, t) \<in> set (rx_run ic r s)" by simp
  from rx_run_sound [OF this] obtain w where "s = w @ t" "rx_matches ic r w" by blast
  with m show ?thesis by simp
qed

lemma re_scan_rebuilds:
  "concat (map (case_sum (\<lambda>m. m) (\<lambda>c. [c])) (re_scan ic r k s)) = drop k s"
proof (induction s arbitrary: k)
  case Nil
  then show ?case by simp
next
  case (Cons c cs)
  show ?case
  proof (cases "0 < k")
    case True
    then obtain j where "k = Suc j" by (cases k) auto
    then show ?thesis using Cons.IH [of j] by simp
  next
    case False
    then have k: "k = 0" by simp
    show ?thesis
    proof (cases "re_match_at ic r (c # cs)")
      case None
      then show ?thesis using k Cons.IH [of 0] by simp
    next
      case (Some m)
      show ?thesis
      proof (cases "group0 m = []")
        case True
        then show ?thesis using k Some Cons.IH [of 0] by simp
      next
        case False
        from re_match_at_sound [OF Some] have split: "c # cs = group0 m @ rest m" by simp
        with False obtain w where w: "group0 m = c # w" by (cases "group0 m") auto
        with split have "cs = w @ rest m" by simp
        then have d: "drop (length (group0 m) - 1) cs = rest m" using w by simp
        have "re_scan ic r k (c # cs) =
            Inl (group0 m) # re_scan ic r (length (group0 m) - 1) cs"
          using k Some False by simp
        then have "concat (map (case_sum (\<lambda>m. m) (\<lambda>c. [c])) (re_scan ic r k (c # cs))) =
            group0 m @ rest m"
          using Cons.IH [of "length (group0 m) - 1"] d by simp
        then show ?thesis using split k by simp
      qed
    qed
  qed
qed

lemma re_scan_matches:
  "Inl u \<in> set (re_scan ic r k s) \<Longrightarrow> sublist u s \<and> rx_matches ic r u"
proof (induction s arbitrary: k)
  case Nil
  then show ?case by simp
next
  case (Cons c cs)
  have later: "sublist u cs \<Longrightarrow> sublist u (c # cs)" for u
    by (simp add: sublist_Cons_right)
  from Cons.prems consider j where "Inl u \<in> set (re_scan ic r j cs)"
    | m where "re_match_at ic r (c # cs) = Some m" "u = group0 m"
    by (auto split: if_splits option.splits)
  then show ?case
  proof cases
    case 1
    then show ?thesis using Cons.IH later by blast
  next
    case 2
    from re_match_at_sound [OF 2(1)] have "c # cs = u @ rest m" "rx_matches ic r u"
      using 2(2) by simp_all
    then show ?thesis by (metis prefixI prefix_imp_sublist)
  qed
qed

lemma re_findall_matches:
  "u \<in> set (re_findall ic r s) \<Longrightarrow> sublist u s \<and> rx_matches ic r u"
proof -
  assume "u \<in> set (re_findall ic r s)"
  then have "Inl u \<in> set (re_scan ic r 0 s)"
    by (auto simp add: re_findall_def split: sum.splits)
  then show ?thesis by (rule re_scan_matches)
qed

section \<open>No scanned pattern matches the empty string\<close>

text \<open>
  \<^verbatim>\<open>re.findall\<close> and \<^verbatim>\<open>re.sub\<close> treat an empty match in a way of their own. The patterns
  the source scans with (the status keywords, the URL pattern, the entity pattern and
  the run of newlines) take one character at least, so that case does not arise.
\<close>

lemma match_consumes:
  assumes "\<not> rx_matches ic r []" and "re_match_at ic r s = Some m"
  shows "group0 m \<noteq> []"
  using assms re_match_at_sound [of ic r s m] by auto

lemma status_patterns_consume:
  "\<forall>r \<in> set (concat (map snd STATUS_PATTERNS)). \<not> rx_matches True r []"
  by (simp add: STATUS_PATTERNS_def rx_str_def rx_seq_def ws0_def ws1_def)

lemma other_patterns_consume:
  "\<not> rx_matches False url_pattern []"
  "\<not> rx_matches False rx_entity []"
  "\<not> rx_matches False (Rep 3 (\<lambda>c. c = newline)) []"
  by (simp_all add: url_pattern_def rx_entity_def rx_str_def rx_seq_def)

section \<open>The maximum of the scores\<close>

lemma categories_order:
  "categories = [''completed'', ''failed'', ''needs_review'', ''in_progress'', ''cancelled'']"
  by (simp add: categories_def STATUS_PATTERNS_def)

lemma scored_categories:
  "map (\<lambda>(status, patterns). (status, status_score patterns text)) STATUS_PATTERNS =
   map (\<lambda>c. (c, category_score c text)) categories"
  by (simp add: categories_def category_score_def STATUS_PATTERNS_def)

lemma status_scores_categories:
  "status_scores text =
     filter (\<lambda>(c, n). 0 < n) (map (\<lambda>c. (c, category_score c text)) categories)"
  by (simp add: status_scores_def scored_categories)

lemma max_by_value_keeps:
  "\<forall>kv \<in> set kvs. snd kv \<le> snd best \<Longrightarrow> max_by_value best kvs = fst best"
  by (induction kvs) auto

lemma max_by_value_first_max:
  "\<forall>kv \<in> set pre. snd kv < v \<Longrightarrow> snd best < v \<Longrightarrow> \<forall>kv \<in> set post. snd kv \<le> v \<Longrightarrow>
   max_by_value best (pre @ (k, v) # post) = k"
proof (induction pre arbitrary: best)
  case Nil
  then show ?case by (simp add: max_by_value_keeps)
next
  case (Cons p pre)
  then show ?case by simp
qed

lemma first_max_wins:
  assumes "\<forall>kv \<in> set pre. snd kv < v" and "\<forall>kv \<in> set post. snd kv \<le> v"
  shows "(case pre @ (k, v) # post of [] \<Rightarrow> u | kv # kvs \<Rightarrow> max_by_value kv kvs) = k"
proof (cases pre)
  case Nil
  with assms show ?thesis by (simp add: max_by_value_keeps)
next
  case (Cons p pre')
  with assms show ?thesis by (simp add: max_by_value_first_max)
qed

lemma detect_status_first_max:
  assumes order: "categories = pre @ [c] @ post"
    and pos: "0 < category_score c text"
    and before: "\<forall>x \<in> set pre. category_score x text < category_score c text"
    and after: "\<forall>x \<in> set post. category_score x text \<le> category_score c text"
  shows "detect_status text = c"
proof -
  let ?sc = "\<lambda>cs. filter (\<lambda>(c, n). 0 < n) (map (\<lambda>c. (c, category_score c text)) cs)"
  have split: "status_scores text = ?sc pre @ (c, category_score c text) # ?sc post"
    using pos by (simp add: status_scores_categories order)
  have b: "\<forall>kv \<in> set (?sc pre). snd kv < category_score c text"
    using before by auto
  have a: "\<forall>kv \<in> set (?sc post). snd kv \<le> category_score c text"
    using after by auto
  show ?thesis
    unfolding detect_status_def split by (rule first_max_wins [OF b a])
qed

lemma detect_status_unknown:
  assumes "\<forall>c \<in> set categories. category_score c text = 0"
  shows "detect_status text = ''unknown''"
proof -
  have "status_scores text = []"
    using assms by (auto simp add: status_scores_categories filter_empty_conv)
  then show ?thesis by (simp add: detect_status_def)
qed

section \<open>The text fall-back of the link extractor\<close>

lemma cls_ok_cs [simp]: "cls_ok False p = p"
  by (rule ext) (simp add: cls_ok_def)

lemma url_pattern_shape:
  assumes "rx_matches False url_pattern u"
  shows "url_shape u"
proof -
  from assms obtain w where
    "u = ''http://'' @ w \<or> u = ''https://'' @ w" and "1 \<le> length w" and "list_all url_char w"
    by (auto simp add: url_pattern_def rx_str_def rx_seq_def lit_ok_def)
  then show ?thesis
    by (auto simp add: url_shape_def)
qed

lemma link_in_text_find:
  "link_in_text text =
     (case find jules_or_github (re_findall False url_pattern text) of
        Some url \<Rightarrow> url
      | None \<Rightarrow> [])"
  by (simp add: link_in_text_def first_link_def)

lemma extract_jules_link_fallback:
  "html = [] \<or> no_anchor_matched bs html \<Longrightarrow> extract_jules_link bs html text = link_in_text text"
  by (auto simp add: extract_jules_link_def no_anchor_matched_def split: sum.splits)

section \<open>Facts for totality\<close>






section \<open>The prefix patterns of the title\<close>

lemma lower_not_space: "py_isspace (py_lower_chr d) = py_isspace d"
  by (cases d) (auto simp add: py_lower_chr_def py_isupper_def py_isspace_def in_range_def)

lemma upper_not_space: "py_isspace (py_upper_chr d) = py_isspace d"
  by (cases d) (auto simp add: py_upper_chr_def py_islower_paired_def py_isspace_def in_range_def)

lemma cls_ok_space [simp]: "cls_ok ic py_isspace = py_isspace"
  by (rule ext) (simp add: cls_ok_def lower_not_space upper_not_space)

lemma lower_dash: "dash_or_colon (py_lower_chr d) = dash_or_colon d"
  by (cases d) (auto simp add: py_lower_chr_def py_isupper_def dash_or_colon_def in_range_def)

lemma upper_dash: "dash_or_colon (py_upper_chr d) = dash_or_colon d"
  by (cases d) (auto simp add: py_upper_chr_def py_islower_paired_def dash_or_colon_def in_range_def)

lemma cls_ok_dash [simp]: "cls_ok ic dash_or_colon = dash_or_colon"
  by (rule ext) (simp add: cls_ok_def lower_dash upper_dash)


lemma rests_Eps [simp]: "rests ic Eps = (\<lambda>s. [s])"
  by (rule ext) (simp add: rests_def)

lemma rests_Rep [simp]: "rests ic (Rep n p) s = rep_run (cls_ok ic p) n s"
  by (simp add: rests_def comp_def)

lemma rests_Cls [simp]:
  "rests ic (Cls p) s = (case s of [] \<Rightarrow> [] | d # t \<Rightarrow> if cls_ok ic p d then [t] else [])"
  by (simp add: rests_def split: list.splits)

lemma rests_Lit [simp]:
  "rests ic (Lit c) s = (case s of [] \<Rightarrow> [] | d # t \<Rightarrow> if lit_ok ic c d then [t] else [])"
  by (simp add: rests_def split: list.splits)


lemma rx_str_Cons: "rx_str (c # w) = Seq (Lit c) (rx_str w)"
  by (simp add: rx_str_def rx_seq_def)

lemma rx_str_Nil: "rx_str [] = Eps"
  by (simp add: rx_str_def rx_seq_def)

lemma ci_prefix_Nil [simp]: "ci_prefix [] s"
  by (simp add: ci_prefix_def py_lower_def)















section \<open>The label pattern of the repository\<close>

lemma lower_repo_char: "repo_char (py_lower_chr d) = repo_char d"
  by (cases d) (auto simp add: py_lower_chr_def py_isupper_def repo_char_def in_range_def)

lemma upper_repo_char: "repo_char (py_upper_chr d) = repo_char d"
  by (cases d) (auto simp add: py_upper_chr_def py_islower_paired_def repo_char_def in_range_def)

lemma cls_ok_repo_char [simp]: "cls_ok ic repo_char = repo_char"
  by (rule ext) (simp add: cls_ok_def lower_repo_char upper_repo_char)

lemma lower_colon: "(py_lower_chr d = CHR '':'') = (d = CHR '':'')"
  by (cases d) (auto simp add: py_lower_chr_def py_isupper_def in_range_def)

lemma upper_colon: "(py_upper_chr d = CHR '':'') = (d = CHR '':'')"
  by (cases d) (auto simp add: py_upper_chr_def py_islower_paired_def in_range_def)

lemma cls_ok_colon_space [simp]:
  "cls_ok ic (\<lambda>c. c = CHR '':'' \<or> py_isspace c) = (\<lambda>c. c = CHR '':'' \<or> py_isspace c)"
  by (rule ext) (auto simp add: cls_ok_def lower_not_space upper_not_space lower_colon upper_colon)

lemma lower_slash: "(py_lower_chr d = py_lower_chr CHR ''/'') = (d = CHR ''/'')"
  by (cases d) (auto simp add: py_lower_chr_def py_isupper_def in_range_def)

lemma matches_Seq_Lit:
  "rx_matches ic (Seq (Lit c) r) u =
     (case u of [] \<Rightarrow> False | d # v \<Rightarrow> lit_ok ic c d \<and> rx_matches ic r v)"
proof (cases u)
  case Nil
  then show ?thesis by simp
next
  case (Cons d v)
  have "(\<exists>x y. d # v = x @ y \<and> (\<exists>e. x = [e] \<and> lit_ok ic c e) \<and> rx_matches ic r y) =
      (lit_ok ic c d \<and> rx_matches ic r v)"
  proof
    assume "\<exists>x y. d # v = x @ y \<and> (\<exists>e. x = [e] \<and> lit_ok ic c e) \<and> rx_matches ic r y"
    then show "lit_ok ic c d \<and> rx_matches ic r v" by auto
  next
    assume "lit_ok ic c d \<and> rx_matches ic r v"
    then show "\<exists>x y. d # v = x @ y \<and> (\<exists>e. x = [e] \<and> lit_ok ic c e) \<and> rx_matches ic r y"
      by (intro exI [of _ "[d]"] exI [of _ v]) simp
  qed
  with Cons show ?thesis by simp
qed

lemma matches_str: "rx_matches True (rx_str w) u = (py_lower u = py_lower w)"
proof (induction w arbitrary: u)
  case Nil
  then show ?case by (simp add: rx_str_Nil py_lower_def)
next
  case (Cons c w)
  show ?case
    by (cases u) (auto simp add: rx_str_Cons matches_Seq_Lit Cons.IH lit_ok_def py_lower_def
        simp del: rx_matches.simps(6))
qed

lemma matches_label:
  "rx_matches True (Alt (rx_str ''repository'') (rx_str ''repo'')) lab = is_label lab"
proof -
  have "py_lower ''repository'' = ''repository''" and "py_lower ''repo'' = ''repo''"
    by code_simp+
  then show ?thesis by (simp add: matches_str is_label_def)
qed

lemma matches_sep:
  "rx_matches True (Rep 1 (\<lambda>c. c = CHR '':'' \<or> py_isspace c)) sep = is_label_sep sep"
  by (cases sep) (simp_all add: is_label_sep_def)

lemma matches_token: "rx_matches True repo_token tok = is_repo_token tok"
proof
  assume "rx_matches True repo_token tok"
  then obtain owner name where "tok = owner @ ''/'' @ name" "1 \<le> length owner"
      "1 \<le> length name" "list_all repo_char owner" "list_all repo_char name"
    by (auto simp add: repo_token_def rx_seq_def lit_ok_def lower_slash)
  then have "tok = owner @ ''/'' @ name \<and> owner \<noteq> [] \<and> name \<noteq> [] \<and>
      list_all repo_char owner \<and> list_all repo_char name"
    by auto
  then show "is_repo_token tok" unfolding is_repo_token_def by blast
next
  assume "is_repo_token tok"
  then obtain owner name where t: "tok = owner @ ''/'' @ name" "owner \<noteq> []" "name \<noteq> []"
      "list_all repo_char owner" "list_all repo_char name"
    unfolding is_repo_token_def by blast
  have "rx_matches True (Rep 1 repo_char) owner" "rx_matches True (Rep 1 repo_char) name"
    using t by (simp_all add: Suc_le_eq)
  moreover have "rx_matches True (Lit CHR ''/'') ''/''"
    by (simp add: lit_ok_def)
  ultimately have "rx_matches True (Seq (Rep 1 repo_char) (Seq (Lit CHR ''/'')
      (Seq (Rep 1 repo_char) Eps))) (owner @ ''/'' @ name @ [])"
    unfolding rx_matches.simps(6) rx_matches.simps(1) by blast
  then show "rx_matches True repo_token tok"
    using t(1) by (simp add: repo_token_def rx_seq_def)
qed

lemma matches_label_rx:
  "rx_matches True repo_label_rx w =
     (\<exists>lab sep tok. w = lab @ sep @ tok \<and> is_label lab \<and> is_label_sep sep \<and> is_repo_token tok)"
proof -
  have rx: "repo_label_rx = Seq (Alt (rx_str ''repository'') (rx_str ''repo''))
      (Seq (Rep 1 (\<lambda>c. c = CHR '':'' \<or> py_isspace c)) (Seq repo_token Eps))"
    by (simp add: repo_label_rx_def rx_seq_def)
  show ?thesis
    unfolding rx rx_matches.simps(6) rx_matches.simps(1) matches_label matches_sep matches_token
    by auto
qed

lemma rep_run_complete:
  "n \<le> length w \<Longrightarrow> list_all p w \<Longrightarrow> t \<in> set (rep_run p n (w @ t))"
proof (induction w arbitrary: n)
  case Nil
  then show ?case by (cases t) simp_all
next
  case (Cons d w)
  then have "t \<in> set (rep_run p (n - 1) (w @ t))" by simp
  with Cons.prems show ?case by simp
qed

lemma rx_run_complete:
  "rx_matches ic r w \<Longrightarrow> \<exists>g. (g, t) \<in> set (rx_run ic r (w @ t))"
proof (induction r arbitrary: w t)
  case Eps
  then show ?case by simp
next
  case (Lit c)
  then show ?case by auto
next
  case (Cls p)
  then show ?case by auto
next
  case (Rep n p)
  then show ?case using rep_run_complete [of n w "cls_ok ic p" t] by auto
next
  case (Opt r)
  then show ?case by fastforce
next
  case (Seq a b)
  from Seq.prems obtain u v where w: "w = u @ v" and a: "rx_matches ic a u"
    and b: "rx_matches ic b v"
    by auto
  from Seq.IH(1) [OF a] obtain g1 where g1: "(g1, v @ t) \<in> set (rx_run ic a (u @ v @ t))"
    by blast
  from Seq.IH(2) [OF b] obtain h where h: "(h, t) \<in> set (rx_run ic b (v @ t))"
    by blast
  from g1 h have "(if h = None then g1 else h, t) \<in> set (rx_run ic (Seq a b) (w @ t))"
    unfolding w by force
  then show ?case by blast
next
  case (Alt a b)
  then show ?case by fastforce
next
  case (Grp r)
  then show ?case by fastforce
qed

lemma re_match_at_complete:
  "rx_matches ic r w \<Longrightarrow> \<exists>m. re_match_at ic r (w @ t) = Some m"
proof -
  assume "rx_matches ic r w"
  from rx_run_complete [OF this] obtain g where "(g, t) \<in> set (rx_run ic r (w @ t))" by blast
  then show ?thesis
    by (cases "rx_run ic r (w @ t)") (auto simp add: re_match_at_def)
qed

lemma re_search_complete:
  "rx_matches ic r w \<Longrightarrow> \<exists>m. re_search ic r (pre @ w @ post) = Some m"
proof (induction pre)
  case Nil
  from re_match_at_complete [OF Nil] obtain m where "re_match_at ic r (w @ post) = Some m"
    by blast
  then show ?case by (cases "w @ post") auto
next
  case (Cons c pre)
  then show ?case by (auto split: option.splits)
qed

lemma re_search_sound:
  "re_search ic r s = Some m \<Longrightarrow> \<exists>pre. s = pre @ group0 m @ rest m \<and>
     re_match_at ic r (group0 m @ rest m) = Some m"
proof (induction s)
  case Nil
  then show ?case using re_match_at_sound [of ic r "[]" m] by simp
next
  case (Cons c cs)
  show ?case
  proof (cases "re_match_at ic r (c # cs)")
    case None
    with Cons.prems have "re_search ic r cs = Some m" by simp
    from Cons.IH [OF this] obtain pre where "cs = pre @ group0 m @ rest m"
      "re_match_at ic r (group0 m @ rest m) = Some m" by blast
    then have "c # cs = (c # pre) @ group0 m @ rest m \<and>
        re_match_at ic r (group0 m @ rest m) = Some m" by simp
    then show ?thesis by blast
  next
    case (Some m')
    with Cons.prems have "m' = m" by simp
    with Some re_match_at_sound [of ic r "c # cs" m]
    have "c # cs = [] @ group0 m @ rest m \<and> re_match_at ic r (group0 m @ rest m) = Some m"
      by simp
    then show ?thesis by blast
  qed
qed

lemma run_Grp_mem:
  assumes "(g, t) \<in> set (rx_run ic (Grp r) s)"
  shows "\<exists>w. s = w @ t \<and> g = Some w \<and> rx_matches ic r w"
proof -
  from assms obtain g' where "(g', t) \<in> set (rx_run ic r s)"
    and g: "g = Some (take (length s - length t) s)"
    by auto
  from rx_run_sound [OF this(1)] obtain w where "s = w @ t" "rx_matches ic r w" by blast
  with g show ?thesis by auto
qed

lemma run_Seq_mem:
  assumes "(g, t) \<in> set (rx_run ic (Seq a b) s)"
  shows "\<exists>g1 t1 h. (g1, t1) \<in> set (rx_run ic a s) \<and> (h, t) \<in> set (rx_run ic b t1) \<and>
     g = (if h = None then g1 else h)"
proof -
  from assms obtain g1 t1 h where "(g1, t1) \<in> set (rx_run ic a s)"
    "(h, t) \<in> set (rx_run ic b t1)" "g = (if h = None then g1 else h)"
    by auto
  then show ?thesis by blast
qed

lemma re_match_at_head:
  "re_match_at ic r s = Some m \<Longrightarrow> \<exists>ps. rx_run ic r s = (group1 m, rest m) # ps"
  by (auto simp add: re_match_at_def split: list.splits)

lemma label_capture:
  assumes "(g, t) \<in> set (rx_run True repo_label_rx s)"
  shows "\<exists>lab sep tok. s = lab @ sep @ tok @ t \<and> is_label lab \<and> is_label_sep sep \<and>
     is_repo_token tok \<and> g = Some tok"
proof -
  let ?A = "Alt (rx_str ''repository'') (rx_str ''repo'')"
  let ?B = "Rep 1 (\<lambda>c. c = CHR '':'' \<or> py_isspace c)"
  have rx: "repo_label_rx = Seq ?A (Seq ?B (Seq repo_token Eps))"
    by (simp add: repo_label_rx_def rx_seq_def)
  from assms have "(g, t) \<in> set (rx_run True (Seq ?A (Seq ?B (Seq repo_token Eps))) s)"
    by (simp only: rx)
  from run_Seq_mem [OF this] obtain g1 t1 h1 where
    a: "(g1, t1) \<in> set (rx_run True ?A s)" and
    r1: "(h1, t) \<in> set (rx_run True (Seq ?B (Seq repo_token Eps)) t1)" and
    g: "g = (if h1 = None then g1 else h1)"
    by blast
  from run_Seq_mem [OF r1] obtain g2 t2 h2 where
    b: "(g2, t2) \<in> set (rx_run True ?B t1)" and
    r2: "(h2, t) \<in> set (rx_run True (Seq repo_token Eps) t2)" and
    h1: "h1 = (if h2 = None then g2 else h2)"
    by blast
  from run_Seq_mem [OF r2] obtain g3 t3 h3 where
    c: "(g3, t3) \<in> set (rx_run True repo_token t2)" and
    e: "(h3, t) \<in> set (rx_run True Eps t3)" and
    h2: "h2 = (if h3 = None then g3 else h3)"
    by blast
  from e have e': "h3 = None" "t3 = t" by simp_all
  from rx_run_sound [OF a] obtain lab where "s = lab @ t1" "rx_matches True ?A lab"
    by blast
  then have lab: "s = lab @ t1" "is_label lab"
    by (simp_all only: matches_label)
  from rx_run_sound [OF b] obtain sep where "t1 = sep @ t2" "rx_matches True ?B sep"
    by blast
  then have sep: "t1 = sep @ t2" "is_label_sep sep"
    by (simp_all only: matches_sep)
  from c have "(g3, t) \<in> set (rx_run True (Grp (rx_seq [Rep 1 repo_char, Lit CHR ''/'',
      Rep 1 repo_char])) t2)"
    by (simp only: repo_token_def e')
  from run_Grp_mem [OF this] obtain tok where tok: "t2 = tok @ t" "g3 = Some tok"
    and "rx_matches True (rx_seq [Rep 1 repo_char, Lit CHR ''/'', Rep 1 repo_char]) tok"
    by blast
  then have "rx_matches True repo_token tok" by (simp add: repo_token_def)
  then have it: "is_repo_token tok" by (simp add: matches_token)
  from g h1 h2 e' tok(2) have "g = Some tok" by simp
  with lab sep tok it show ?thesis by auto
qed

lemma first_label_match:
  assumes "re_search True repo_label_rx text = Some m"
  shows "extract_repo text subject = group1_text m \<and> labelled_token text (group1_text m)"
proof -
  from re_search_sound [OF assms] obtain pre where
    tx: "text = pre @ group0 m @ rest m" and
    at: "re_match_at True repo_label_rx (group0 m @ rest m) = Some m"
    by blast
  from re_match_at_head [OF at] obtain ps where
    "rx_run True repo_label_rx (group0 m @ rest m) = (group1 m, rest m) # ps"
    by blast
  then have "(group1 m, rest m) \<in> set (rx_run True repo_label_rx (group0 m @ rest m))"
    by simp
  from label_capture [OF this] obtain lab sep tok where
    split: "group0 m @ rest m = lab @ sep @ tok @ rest m" and
    ok: "is_label lab" "is_label_sep sep" "is_repo_token tok" and gt: "group1 m = Some tok"
    by blast
  have tok: "group1_text m = tok" using gt by (simp add: group1_text_def)
  have "text = pre @ lab @ sep @ tok @ rest m" using tx split by simp
  with ok have "labelled_token text tok" unfolding labelled_token_def by blast
  moreover have "extract_repo text subject = group1_text m"
    using assms by (simp add: extract_repo_def repo_patterns_def)
  ultimately show ?thesis using tok by simp
qed

lemma label_found:
  assumes "labelled_token text tok"
  shows "\<exists>m. re_search True repo_label_rx text = Some m"
proof -
  from assms obtain pre lab sep post where tx: "text = pre @ lab @ sep @ tok @ post"
    and ok: "is_label lab" "is_label_sep sep" "is_repo_token tok"
    unfolding labelled_token_def by blast
  from ok have "rx_matches True repo_label_rx (lab @ sep @ tok)"
    unfolding matches_label_rx by blast
  from re_search_complete [OF this, of pre post] show ?thesis using tx by simp
qed

section \<open>The summary is capped\<close>

lemma build_summary_cases:
  "build_summary snippet body_text =
     (if snippet \<noteq> [] then
        take 300 (re_sub False rx_entity []
          (py_replace ''&quot;'' [CHR 0x22] (py_replace ''&#39;'' [CHR 0x27] snippet)))
      else if body_text \<noteq> [] then
        take 300 (py_join '' ''
          (take 3 (filter (\<lambda>line. line \<noteq> []) (map py_strip (py_split CHR 0x0A body_text)))))
      else ''New notification from Jules'')"
  by (simp add: build_summary_def Let_def)

text \<open>
  C7. The summary has at most 300 characters, whichever of the three branches of
  \<^verbatim>\<open>_build_summary\<close> produces it: the snippet with its entities decoded, the first three
  non-empty stripped lines of the body joined by single spaces, or the fixed text. The
  same bound holds for the \<open>summary\<close> field of every parsed notification.
\<close>

theorem summary_at_most_300:
  "length (build_summary snippet body_text) \<le> 300 \<and>
   length (summary (parse_jules_email bs email_data)) \<le> 300"
proof -
  have cap: "length (build_summary s b) \<le> 300" for s b
    unfolding build_summary_cases by simp
  show ?thesis
    using cap by (simp add: parse_jules_email_def Let_def)
qed

lemma summary_cut_at_300:
  "build_summary (replicate 400 CHR ''a'') [] = replicate 300 CHR ''a''"
  by code_simp

section \<open>An email with nothing in it\<close>

text \<open>
  C8. When subject, snippet, HTML body and text body are all the empty string, the
  parser returns status \<open>unknown\<close>, the title \<open>Jules Notification\<close>, an empty repo, the
  summary \<open>New notification from Jules\<close> and an empty link, whatever the markup library
  would do (it is not called). The result is a record: there is no failure outcome.
\<close>

theorem parse_all_empty:
  "parse_jules_email bs (raw_email [] [] [] []) =
     \<lparr>status = ''unknown'', title = ''Jules Notification'', repo = [],
      summary = ''New notification from Jules'', link = [], raw_subject = []\<rparr>"
  by code_simp

section \<open>The subject fall-back of the repository extractor\<close>

text \<open>
  C10. The subject fall-back of \<^verbatim>\<open>_extract_repo\<close> accepts a token that lies inside a URL:
  for the subject \<open>See https://jules.google.com/task/123\<close>, with no repository label and
  no github.com URL in the scanning text, the result is \<open>jules.google.com/task\<close> and not
  the empty string. The match of the token pattern begins behind \<open>https://\<close>, so it does
  not start with \<open>http\<close> and passes the filter.
\<close>

theorem extract_repo_inside_url:
  "extract_repo (py_lower (''See https://jules.google.com/task/123'' @ '' '' @ [] @ '' '' @ []))
     ''See https://jules.google.com/task/123'' = ''jules.google.com/task'' \<and>
   repo (parse_jules_email bs (raw_email ''See https://jules.google.com/task/123'' [] [] []))
     = ''jules.google.com/task''"
proof -
  have r: "extract_repo (py_lower (''See https://jules.google.com/task/123'' @ '' '' @ [] @ '' '' @ []))
     ''See https://jules.google.com/task/123'' = ''jules.google.com/task''"
    by code_simp
  show ?thesis
    using r by (simp add: parse_repo)
qed

section \<open>Ties between categories\<close>

text \<open>
  C4 (as amended). When two categories have the same positive score on a scanning text
  and every other category scores strictly lower, \<^verbatim>\<open>_detect_status\<close> returns the one that
  comes earlier in the declared order completed, failed, needs_review, in_progress,
  cancelled. When no category has a positive score the result is \<open>unknown\<close>.
\<close>

theorem detect_status_tie_break:
  "(categories = pre @ [c1] @ mid @ [c2] @ post \<and>
    category_score c1 text = category_score c2 text \<and> 0 < category_score c1 text \<and>
    (\<forall>c \<in> set (pre @ mid @ post). category_score c text < category_score c1 text)
      \<longrightarrow> detect_status text = c1) \<and>
   ((\<forall>c \<in> set categories. category_score c text = 0) \<longrightarrow> detect_status text = ''unknown'')"
proof (intro conjI impI)
  assume h: "categories = pre @ [c1] @ mid @ [c2] @ post \<and>
    category_score c1 text = category_score c2 text \<and> 0 < category_score c1 text \<and>
    (\<forall>c \<in> set (pre @ mid @ post). category_score c text < category_score c1 text)"
  from h have order: "categories = pre @ [c1] @ (mid @ [c2] @ post)" by simp
  from h have pos: "0 < category_score c1 text" by blast
  from h have tie: "category_score c2 text \<le> category_score c1 text" by linarith
  from h have low: "\<And>c. c \<in> set (pre @ mid @ post) \<Longrightarrow>
      category_score c text < category_score c1 text" by blast
  have before: "\<forall>x \<in> set pre. category_score x text < category_score c1 text"
    using low by auto
  have after: "\<forall>x \<in> set (mid @ [c2] @ post). category_score x text \<le> category_score c1 text"
  proof
    fix x assume "x \<in> set (mid @ [c2] @ post)"
    then consider "x = c2" | "x \<in> set (pre @ mid @ post)" by auto
    then show "category_score x text \<le> category_score c1 text"
    proof cases
      case 1
      then show ?thesis using tie by simp
    next
      case 2
      then show ?thesis using low [of x] by simp
    qed
  qed
  show "detect_status text = c1"
    by (rule detect_status_first_max [OF order pos before after])
next
  assume "\<forall>c \<in> set categories. category_score c text = 0"
  then show "detect_status text = ''unknown''" by (rule detect_status_unknown)
qed

lemma scores_done_error: "map (\<lambda>c. category_score c ''done error  '') categories = [1, 1, 0, 0, 0]"
  by code_simp

lemma scores_three: "map (\<lambda>c. category_score c ''done error review  '') categories = [1, 1, 1, 0, 0]"
  by code_simp

lemma scores_none: "map (\<lambda>c. category_score c ''hello world  '') categories = [0, 0, 0, 0, 0]"
  by code_simp

theorem detect_status_tie_break_witness:
  "detect_status ''done error  '' = ''completed'' \<and> detect_status ''hello world  '' = ''unknown''"
proof -
  have s: "category_score ''completed'' ''done error  '' = 1"
      "category_score ''failed'' ''done error  '' = 1"
      "category_score ''needs_review'' ''done error  '' = 0"
      "category_score ''in_progress'' ''done error  '' = 0"
      "category_score ''cancelled'' ''done error  '' = 0"
    using scores_done_error by (simp_all add: categories_order)
  have z: "\<forall>c \<in> set categories. category_score c ''hello world  '' = 0"
    using scores_none by (simp add: categories_order)
  have o: "categories = [] @ [''completed''] @ [] @ [''failed''] @
     [''needs_review'', ''in_progress'', ''cancelled'']"
    by (simp add: categories_order)
  show ?thesis
    using detect_status_tie_break [of "[]" "''completed''" "[]" "''failed''"
        "[''needs_review'', ''in_progress'', ''cancelled'']" "''done error  ''"]
      detect_status_tie_break [of "[]" "''completed''" "[]" "''failed''"
        "[''needs_review'', ''in_progress'', ''cancelled'']" "''hello world  ''"]
      o s z by simp
qed

text \<open>
  The claim as first stated asks only that no third category scores higher. With three
  categories tied that is not enough: on \<open>done error review\<close> the categories failed and
  needs_review have the same positive score and none scores higher, yet the result is
  completed, which ties with them and is declared first.
\<close>

theorem tie_of_three_counterexample:
  "map (\<lambda>c. category_score c ''done error review  '') categories = [1, 1, 1, 0, 0] \<and>
   categories = [''completed'', ''failed'', ''needs_review'', ''in_progress'', ''cancelled''] \<and>
   detect_status ''done error review  '' = ''completed'' \<and>
   detect_status ''done error review  '' \<noteq> ''failed''"
proof -
  have "detect_status ''done error review  '' = ''completed''" by code_simp
  then show ?thesis using scores_three categories_order by simp
qed

section \<open>Where the link is looked for\<close>

text \<open>
  C2 (as amended). When the HTML body is empty, or no anchor passed the test (or the
  markup library raised), the link is what the text fall-back finds in the normalized
  body \<^verbatim>\<open>body_plain\<close>, in its original case; subject and snippet are not scanned. The
  fall-back takes the matches of the URL pattern from left to right and returns the first
  that contains \<open>jules\<close> or \<open>github.com\<close> in any case, else the empty string. Every match
  is a piece of the scanned text that begins with \<open>http://\<close> or \<open>https://\<close> and goes on
  with one character or more, none of them white space or one of \<^verbatim>\<open>< > " ' ) ]\<close>.
\<close>

theorem link_fallback_scans_body:
  "(body_html = [] \<or> no_anchor_matched bs body_html \<longrightarrow>
      link (parse_jules_email bs (raw_email subject snippet body_html body_text)) =
        link_in_text (body_plain_of bs body_html body_text)) \<and>
   link_in_text text =
     (case find jules_or_github (re_findall False url_pattern text) of
        Some url \<Rightarrow> url
      | None \<Rightarrow> []) \<and>
   (\<forall>url \<in> set (re_findall False url_pattern text). sublist url text \<and> url_shape url)"
proof (intro conjI impI ballI)
  assume "body_html = [] \<or> no_anchor_matched bs body_html"
  then show "link (parse_jules_email bs (raw_email subject snippet body_html body_text)) =
        link_in_text (body_plain_of bs body_html body_text)"
    by (simp only: parse_link extract_jules_link_fallback)
next
  show "link_in_text text =
     (case find jules_or_github (re_findall False url_pattern text) of
        Some url \<Rightarrow> url
      | None \<Rightarrow> [])"
    by (rule link_in_text_find)
next
  fix url assume u: "url \<in> set (re_findall False url_pattern text)"
  from re_findall_matches [OF u] show "sublist url text" by simp
  from re_findall_matches [OF u] show "url_shape url" by (simp add: url_pattern_shape)
qed

lemma link_in_body_example:
  "re_findall False url_pattern ''see http://example.com/x, then (https://GitHub.com/a/b) or https://jules.google.com/t'' =
     [''http://example.com/x,'', ''https://GitHub.com/a/b'', ''https://jules.google.com/t''] \<and>
   link_in_text ''see http://example.com/x, then (https://GitHub.com/a/b) or https://jules.google.com/t'' =
     ''https://GitHub.com/a/b''"
  by code_simp

theorem link_fallback_scans_body_witness:
  "link (parse_jules_email failing_soup
      (raw_email ''https://jules.google.com/task/9'' ''https://github.com/octo/cat''
         [] ''see http://example.com/x, then (https://GitHub.com/a/b) or https://jules.google.com/t''))
     = ''https://GitHub.com/a/b''"
  using link_fallback_scans_body [of "[]" failing_soup "''https://jules.google.com/task/9''"
      "''https://github.com/octo/cat''"
      "''see http://example.com/x, then (https://GitHub.com/a/b) or https://jules.google.com/t''"
      "[]"]
    link_in_body_example
  by simp

text \<open>
  As first stated the fall-back would scan the scanning text, and so find a URL that
  stands in the snippet or the subject only. The source passes \<^verbatim>\<open>body_plain\<close>: for a
  snippet with a github.com URL and empty bodies the link is empty, although the URL
  pattern finds the URL in the scanning text.
\<close>

lemma link_in_scanning_text:
  "link_in_text (py_lower ([] @ '' '' @ ''See https://github.com/octo/cat/pull/5'' @ '' '' @ [])) =
     ''https://github.com/octo/cat/pull/5''"
  by code_simp

theorem link_in_snippet_counterexample:
  "link (parse_jules_email failing_soup
      (raw_email [] ''See https://github.com/octo/cat/pull/5'' [] [])) = [] \<and>
   link_in_text (py_lower ([] @ '' '' @ ''See https://github.com/octo/cat/pull/5'' @ '' '' @ [])) =
     ''https://github.com/octo/cat/pull/5''"
proof -
  have "link_in_text [] = []" by code_simp
  then have "link (parse_jules_email failing_soup
      (raw_email [] ''See https://github.com/octo/cat/pull/5'' [] [])) = []"
    by (simp add: parse_link extract_jules_link_fallback)
  then show ?thesis using link_in_scanning_text by simp
qed

section \<open>The result depends on the four fields only\<close>



section \<open>The parser always returns a record\<close>




section \<open>The scenario of a completed task\<close>

lemma scenario_repo:
  "extract_repo (py_lower (''[Jules] Task completed for your PR'' @ '' '' @
      ''Your task finished successfully. Repository: octo/cat. See https://github.com/octo/cat/pull/5'' @
      '' '' @ [])) ''[Jules] Task completed for your PR'' = ''octo/cat.''"
  by code_simp

lemma scenario_status:
  "detect_status (py_lower (''[Jules] Task completed for your PR'' @ '' '' @
      ''Your task finished successfully. Repository: octo/cat. See https://github.com/octo/cat/pull/5'' @
      '' '' @ [])) = ''completed''"
  by code_simp

lemma scenario_title:
  "clean_subject ''[Jules] Task completed for your PR'' = ''Task completed for your PR''"
  by code_simp

lemma scenario_summary:
  "build_summary ''Your task finished successfully. Repository: octo/cat. See https://github.com/octo/cat/pull/5'' [] =
     ''Your task finished successfully. Repository: octo/cat. See https://github.com/octo/cat/pull/5''"
  by code_simp

lemma scenario_link: "extract_jules_link bs [] [] = []"
  by code_simp

lemma parsed_eqI:
  "status r = a \<Longrightarrow> title r = b \<Longrightarrow> repo r = c \<Longrightarrow> summary r = d \<Longrightarrow> link r = e \<Longrightarrow>
   raw_subject r = f \<Longrightarrow>
   (r::parsed) = \<lparr>status = a, title = b, repo = c, summary = d, link = e, raw_subject = f\<rparr>"
  by (cases r) simp

text \<open>
  C1 (as amended). For the subject \<open>[Jules] Task completed for your PR\<close>, the snippet
  \<open>Your task finished successfully. Repository: octo/cat. See
  https://github.com/octo/cat/pull/5\<close> and empty bodies, the parser returns the status
  \<open>completed\<close>, the title \<open>Task completed for your PR\<close>, the summary equal to the snippet,
  the repo \<open>octo/cat.\<close> (the token class holds the full stop, so the greedy match takes
  the one that ends the sentence) and an empty link (the link is looked for in the body,
  which is empty).
\<close>

theorem parse_scenario:
  "parse_jules_email bs
     (raw_email ''[Jules] Task completed for your PR''
        ''Your task finished successfully. Repository: octo/cat. See https://github.com/octo/cat/pull/5''
        [] []) =
   \<lparr>status = ''completed'',
    title = ''Task completed for your PR'',
    repo = ''octo/cat.'',
    summary = ''Your task finished successfully. Repository: octo/cat. See https://github.com/octo/cat/pull/5'',
    link = [],
    raw_subject = ''[Jules] Task completed for your PR''\<rparr>"
proof (rule parsed_eqI)
  show "status (parse_jules_email bs
     (raw_email ''[Jules] Task completed for your PR''
        ''Your task finished successfully. Repository: octo/cat. See https://github.com/octo/cat/pull/5''
        [] [])) = ''completed''"
    unfolding parse_status body_plain_of_no_html by (rule scenario_status)
qed (simp_all only: parse_title parse_repo parse_summary parse_link parse_raw_subject
      body_plain_of_no_html scenario_repo scenario_title scenario_summary scenario_link)

text \<open>
  The scenario as first stated expects the repo \<open>octo/cat\<close> and the link to the pull
  request. The repo comes out with the full stop that ends the sentence, and the link
  is empty.
\<close>

theorem parse_scenario_counterexample:
  "repo (parse_jules_email failing_soup
     (raw_email ''[Jules] Task completed for your PR''
        ''Your task finished successfully. Repository: octo/cat. See https://github.com/octo/cat/pull/5''
        [] [])) = ''octo/cat.'' \<and>
   link (parse_jules_email failing_soup
     (raw_email ''[Jules] Task completed for your PR''
        ''Your task finished successfully. Repository: octo/cat. See https://github.com/octo/cat/pull/5''
        [] [])) = [] \<and>
   ''octo/cat.'' \<noteq> ''octo/cat'' \<and> [] \<noteq> ''https://github.com/octo/cat/pull/5''"
proof -
  have "''octo/cat.'' \<noteq> ''octo/cat'' \<and> [] \<noteq> ''https://github.com/octo/cat/pull/5''"
    by simp
  then show ?thesis
    by (simp only: parse_repo parse_link body_plain_of_no_html scenario_repo scenario_link
        simp_thms)
qed

section \<open>Stacked prefixes of the subject\<close>



lemma stacked_three:
  "clean_subject '' [JULES] jules:  Google Jules - fix the build '' = ''fix the build''"
  by code_simp


section \<open>The label comes before the URL\<close>

text \<open>
  C6. When the scanning text holds a label \<open>repository\<close> or \<open>repo\<close>, then colons or
  white space, then an \<open>owner/name\<close> token, the label pattern of \<^verbatim>\<open>_extract_repo\<close> is
  found, and the result is the token its leftmost match captured: a token that follows a
  label in the text. This holds for every text, so a github.com URL with another token
  changes nothing, wherever it stands: the label pattern is tried first.
\<close>

theorem repo_label_first:
  "(\<exists>tok. labelled_token text tok) \<longrightarrow>
     (\<exists>m. re_search True repo_label_rx text = Some m \<and>
          extract_repo text subject = group1_text m) \<and>
     labelled_token text (extract_repo text subject)"
proof
  assume "\<exists>tok. labelled_token text tok"
  then obtain tok where "labelled_token text tok" by blast
  from label_found [OF this] obtain m where m: "re_search True repo_label_rx text = Some m"
    by blast
  from first_label_match [OF m, of subject] m
  show "(\<exists>m. re_search True repo_label_rx text = Some m \<and>
          extract_repo text subject = group1_text m) \<and>
     labelled_token text (extract_repo text subject)"
    by auto
qed

lemma label_after_url:
  "extract_repo ''see github.com/other/proj for repository: acme/widgets now'' [] = ''acme/widgets''"
  by code_simp

lemma label_before_url:
  "extract_repo ''repository: acme/widgets (https://github.com/other/proj)'' [] = ''acme/widgets''"
  by code_simp

lemma url_alone:
  "extract_repo ''see github.com/other/proj now'' [] = ''other/proj''"
  by code_simp

theorem repo_label_first_witness:
  "labelled_token ''see github.com/other/proj for repository: acme/widgets now''
     (extract_repo ''see github.com/other/proj for repository: acme/widgets now'' []) \<and>
   extract_repo ''see github.com/other/proj for repository: acme/widgets now'' [] = ''acme/widgets'' \<and>
   extract_repo ''repository: acme/widgets (https://github.com/other/proj)'' [] = ''acme/widgets''"
proof -
  have "is_label ''repository''"
    unfolding is_label_def by code_simp
  moreover have "is_label_sep '': ''"
    by (simp add: is_label_sep_def py_isspace_def in_range_def)
  moreover have "list_all repo_char ''acme''" and "list_all repo_char ''widgets''"
    by code_simp+
  then have "is_repo_token ''acme/widgets''"
    unfolding is_repo_token_def by (intro exI [of _ "''acme''"] exI [of _ "''widgets''"]) simp
  moreover have "''see github.com/other/proj for repository: acme/widgets now'' =
      ''see github.com/other/proj for '' @ ''repository'' @ '': '' @ ''acme/widgets'' @ '' now''"
    by simp
  ultimately have "labelled_token ''see github.com/other/proj for repository: acme/widgets now''
      ''acme/widgets''"
    unfolding labelled_token_def by blast
  then show ?thesis
    using repo_label_first [of "''see github.com/other/proj for repository: acme/widgets now''" "[]"]
      label_after_url label_before_url
    by auto
qed


end
